theory Spec2Isabelle
  imports Main
begin

section \<open>Data model of \<open>top-workplaces.ts\<close>\<close>

text \<open>
  The interfaces of the script. A JavaScript \<open>number\<close> that holds an id, a status or a
  count is an \<open>int\<close>; \<open>number | null\<close> and \<open>string | null\<close> are options. The field
  \<open>id\<close> is written \<open>id_w\<close> (workplace) and \<open>id_s\<close> (shift), since \<open>id\<close> is the identity
  function of HOL; \<open>links.next\<close> is the field \<open>next_l\<close> of the record \<open>Links\<close>.
\<close>

record Workplace =
  id_w :: int
  name_w :: string
  status :: int

record Shift =
  id_s :: int
  workplaceId :: int
  workerId :: "int option"
  cancelledAt :: "string option"

record WorkplaceResult =
  name :: string
  shifts :: int

record Links =
  next_l :: "string option"

record 'a PaginatedResponse =
  data :: "'a list"
  links :: Links

section \<open>The JavaScript \<open>Map\<close>\<close>

text \<open>
  A \<open>Map\<close> iterates in insertion order, and \<open>set\<close> on a key that is present keeps the
  key's position. The model is the list of entries in iteration order.
\<close>

type_synonym ('k, 'v) js_map = "('k \<times> 'v) list"

fun Map_set :: "('k, 'v) js_map \<Rightarrow> 'k \<Rightarrow> 'v \<Rightarrow> ('k, 'v) js_map" where
  "Map_set [] k v = [(k, v)]"
| "Map_set ((k', v') # m) k v =
     (if k' = k then (k, v) # m else (k', v') # Map_set m k v)"

fun Map_get :: "('k, 'v) js_map \<Rightarrow> 'k \<Rightarrow> 'v option" where
  "Map_get [] k = None"
| "Map_get ((k', v') # m) k = (if k' = k then Some v' else Map_get m k)"

fun Map_has :: "('k, 'v) js_map \<Rightarrow> 'k \<Rightarrow> bool" where
  "Map_has [] k = False"
| "Map_has ((k', v') # m) k = (if k' = k then True else Map_has m k)"

definition Map_keys :: "('k, 'v) js_map \<Rightarrow> 'k list" where
  "Map_keys m = map fst m"

section \<open>The aggregation pipeline of \<open>getTopWorkplaces\<close>\<close>

text \<open>Lines 79 to 84: the lookup from the id of an active workplace to its name.\<close>

definition activeWorkplaceMap_step ::
  "(int, string) js_map \<Rightarrow> Workplace \<Rightarrow> (int, string) js_map" where
  "activeWorkplaceMap_step m workplace =
     (if status workplace = 0 then Map_set m (id_w workplace) (name_w workplace) else m)"

fun activeWorkplaceMap_loop ::
  "(int, string) js_map \<Rightarrow> Workplace list \<Rightarrow> (int, string) js_map" where
  "activeWorkplaceMap_loop m [] = m"
| "activeWorkplaceMap_loop m (workplace # rest) =
     activeWorkplaceMap_loop (activeWorkplaceMap_step m workplace) rest"

definition activeWorkplaceMap :: "Workplace list \<Rightarrow> (int, string) js_map" where
  "activeWorkplaceMap allWorkplaces = activeWorkplaceMap_loop [] allWorkplaces"

text \<open>
  Lines 91 to 99: the count of completed shifts of each active workplace.
  \<open>shiftCounts.get(..) || 0\<close> is 0 for a key that is absent and for a stored 0.
\<close>

definition isCompleted :: "Shift \<Rightarrow> bool" where
  "isCompleted shift = (workerId shift \<noteq> None \<and> cancelledAt shift = None)"

definition or_zero :: "int option \<Rightarrow> int" where
  "or_zero v = (case v of None \<Rightarrow> 0 | Some c \<Rightarrow> if c = 0 then 0 else c)"

definition shiftCounts_step ::
  "(int, string) js_map \<Rightarrow> (int, int) js_map \<Rightarrow> Shift \<Rightarrow> (int, int) js_map" where
  "shiftCounts_step active counts shift =
     (if isCompleted shift \<and> Map_has active (workplaceId shift)
      then (let currentCount = or_zero (Map_get counts (workplaceId shift))
            in Map_set counts (workplaceId shift) (currentCount + 1))
      else counts)"

fun shiftCounts_loop ::
  "(int, string) js_map \<Rightarrow> (int, int) js_map \<Rightarrow> Shift list \<Rightarrow> (int, int) js_map" where
  "shiftCounts_loop active counts [] = counts"
| "shiftCounts_loop active counts (shift # rest) =
     shiftCounts_loop active (shiftCounts_step active counts shift) rest"

definition shiftCounts :: "(int, string) js_map \<Rightarrow> Shift list \<Rightarrow> (int, int) js_map" where
  "shiftCounts active allShifts = shiftCounts_loop active [] allShifts"

text \<open>
  Lines 105 to 111: the join of the counts with the names. \<open>if (name)\<close> is false for
  \<open>undefined\<close> (the id is not a key of the lookup) and for the empty string.
\<close>

definition results_step ::
  "(int, string) js_map \<Rightarrow> WorkplaceResult list \<Rightarrow> int \<times> int \<Rightarrow> WorkplaceResult list" where
  "results_step active results entry =
     (case Map_get active (fst entry) of
        None \<Rightarrow> results
      | Some nm \<Rightarrow>
          if nm \<noteq> [] then results @ [\<lparr>name = nm, shifts = snd entry\<rparr>] else results)"

fun results_loop ::
  "(int, string) js_map \<Rightarrow> WorkplaceResult list \<Rightarrow> (int, int) js_map \<Rightarrow> WorkplaceResult list"
  where
  "results_loop active results [] = results"
| "results_loop active results (entry # rest) =
     results_loop active (results_step active results entry) rest"

definition results_of ::
  "(int, string) js_map \<Rightarrow> (int, int) js_map \<Rightarrow> WorkplaceResult list" where
  "results_of active counts = results_loop active [] counts"

text \<open>
  Line 113: \<open>results.sort((a, b) => b.shifts - a.shifts)\<close>. \<open>Array.prototype.sort\<close> is
  stable, and the comparator is a consistent order, so the outcome is the one stable
  arrangement by it; a stable insertion sort computes that arrangement.
\<close>

definition compare_shifts :: "WorkplaceResult \<Rightarrow> WorkplaceResult \<Rightarrow> int" where
  "compare_shifts a b = shifts b - shifts a"

fun insert_sorted ::
  "('a \<Rightarrow> 'a \<Rightarrow> int) \<Rightarrow> 'a \<Rightarrow> 'a list \<Rightarrow> 'a list" where
  "insert_sorted cmp x [] = [x]"
| "insert_sorted cmp x (y # ys) =
     (if cmp x y \<le> 0 then x # y # ys else y # insert_sorted cmp x ys)"

fun array_sort :: "('a \<Rightarrow> 'a \<Rightarrow> int) \<Rightarrow> 'a list \<Rightarrow> 'a list" where
  "array_sort cmp [] = []"
| "array_sort cmp (x # xs) = insert_sorted cmp x (array_sort cmp xs)"

text \<open>Line 114: \<open>results.slice(0, 3)\<close>.\<close>

definition top3Workplaces :: "Workplace list \<Rightarrow> Shift list \<Rightarrow> WorkplaceResult list" where
  "top3Workplaces allWorkplaces allShifts =
     (let active = activeWorkplaceMap allWorkplaces;
          counts = shiftCounts active allShifts;
          results = results_of active counts
      in take 3 (array_sort compare_shifts results))"

section \<open>The paginated fetcher\<close>

text \<open>
  A page request either fails (\<open>axios.get\<close> rejects: a transport error or a response that
  is not a success, or any other exception while the response is taken apart) or yields
  a page. The remote service is a function from the address to that outcome: the data
  set does not change during a run. The effect of \<open>axios.get\<close> on the network is the
  list of the addresses requested so far.
\<close>

datatype error = AxiosError string | UnexpectedError string

type_synonym 'a server = "string \<Rightarrow> error + 'a PaginatedResponse"

definition axios_get ::
  "'a server \<Rightarrow> string \<Rightarrow> string list \<Rightarrow> (error + 'a PaginatedResponse) \<times> string list" where
  "axios_get server url requests = (server url, requests @ [url])"

text \<open>
  Lines 53 to 58: \<open>while (nextUrl)\<close> leaves the loop when \<open>nextUrl\<close> is \<open>null\<close> and
  when it is the empty string. The loop has no bound of its own, so it is a partial
  function: \<open>None\<close> is a fetch that never returns. A rejected request leaves the function
  through the exception, without the items gathered so far.
\<close>

partial_function (option) fetch_loop ::
  "'a server \<Rightarrow> 'a list \<Rightarrow> string option \<Rightarrow> string list
     \<Rightarrow> ((error + 'a list) \<times> string list) option" where
  "fetch_loop server allItems nextUrl requests =
     (case nextUrl of
        None \<Rightarrow> Some (Inr allItems, requests)
      | Some url \<Rightarrow>
          if url = [] then Some (Inr allItems, requests)
          else (case axios_get server url requests of
                  (Inl e, requests') \<Rightarrow> Some (Inl e, requests')
                | (Inr response, requests') \<Rightarrow>
                    fetch_loop server (allItems @ data response)
                      (next_l (links response)) requests'))"

declare fetch_loop.simps [code]

definition fetchAllPaginatedData ::
  "'a server \<Rightarrow> string \<Rightarrow> string list \<Rightarrow> ((error + 'a list) \<times> string list) option" where
  "fetchAllPaginatedData server initialUrl requests =
     fetch_loop server [] (Some initialUrl) requests"

section \<open>The top level: two concurrent fetches, the report, the failure path\<close>

text \<open>
  \<open>Promise.all\<close> runs the two fetches as coroutines. A fetch is suspended at its
  \<open>await\<close> with the items gathered so far and the address it has requested
  (\<open>Pending\<close>), or it has returned (\<open>Fulfilled\<close>) or thrown (\<open>Rejected\<close>).
  \<open>fetch_suspend\<close> is the loop test followed by the next request, \<open>fetch_resume\<close> is
  the rest of the loop body once the response has arrived.
\<close>

datatype 'a promise = Pending "'a list" string | Fulfilled "'a list" | Rejected error

definition fetch_suspend :: "'a list \<Rightarrow> string option \<Rightarrow> 'a promise" where
  "fetch_suspend allItems nextUrl =
     (case nextUrl of
        None \<Rightarrow> Fulfilled allItems
      | Some url \<Rightarrow> if url = [] then Fulfilled allItems else Pending allItems url)"

definition fetch_resume :: "'a server \<Rightarrow> 'a promise \<Rightarrow> 'a promise" where
  "fetch_resume server p =
     (case p of
        Pending allItems url \<Rightarrow>
          (case server url of
             Inl e \<Rightarrow> Rejected e
           | Inr response \<Rightarrow> fetch_suspend (allItems @ data response) (next_l (links response)))
      | Fulfilled allItems \<Rightarrow> Fulfilled allItems
      | Rejected e \<Rightarrow> Rejected e)"

text \<open>
  What the process leaves behind: the lines written by \<open>console.log\<close>, the lines written
  by \<open>console.error\<close>, and the exit status. \<open>JSON.stringify\<close> is a library function and
  a parameter of the model.
\<close>

record process_result =
  stdout :: "string list"
  stderr :: "string list"
  exit_code :: int

text \<open>Lines 121 to 131: the \<open>catch\<close> block.\<close>

definition report_failure :: "error \<Rightarrow> process_result" where
  "report_failure e =
     \<lparr>stdout = [],
      stderr = [''Failed to fetch or process workplace data. Is the server running? `npm start`'',
                (case e of
                   AxiosError message \<Rightarrow> ''Axios error: '' @ message
                 | UnexpectedError shown \<Rightarrow> ''An unexpected error occurred: '' @ shown)],
      exit_code = 1\<rparr>"

text \<open>Lines 76 to 119: the rest of the \<open>try\<close> block once both fetches have returned.\<close>

definition report_success ::
  "(WorkplaceResult list \<Rightarrow> string) \<Rightarrow> Workplace list \<Rightarrow> Shift list \<Rightarrow> process_result" where
  "report_success JSON_stringify allWorkplaces allShifts =
     \<lparr>stdout = [JSON_stringify (top3Workplaces allWorkplaces allShifts)],
      stderr = [],
      exit_code = 0\<rparr>"

text \<open>
  \<open>Promise.all\<close> rejects as soon as one of the two promises is rejected, is fulfilled
  once both are fulfilled, and is pending (\<open>None\<close>) otherwise.
\<close>

definition Promise_all ::
  "'a promise \<Rightarrow> 'b promise \<Rightarrow> (error + 'a list \<times> 'b list) option" where
  "Promise_all pa pb =
     (case pa of
        Rejected e \<Rightarrow> Some (Inl e)
      | Pending itemsa urla \<Rightarrow>
          (case pb of Rejected e \<Rightarrow> Some (Inl e) | Pending itemsb urlb \<Rightarrow> None | Fulfilled b \<Rightarrow> None)
      | Fulfilled a \<Rightarrow>
          (case pb of
             Rejected e \<Rightarrow> Some (Inl e)
           | Pending itemsb urlb \<Rightarrow> None
           | Fulfilled b \<Rightarrow> Some (Inr (a, b))))"

definition finish ::
  "(WorkplaceResult list \<Rightarrow> string) \<Rightarrow> error + Workplace list \<times> Shift list \<Rightarrow> process_result"
  where
  "finish JSON_stringify r =
     (case r of
        Inl e \<Rightarrow> report_failure e
      | Inr (allWorkplaces, allShifts) \<Rightarrow> report_success JSON_stringify allWorkplaces allShifts)"

text \<open>
  The order in which the responses of the two fetches arrive is not fixed by the program.
  It is the schedule \<open>sched\<close>: \<open>True\<close> when the next response to arrive belongs to the
  workplaces fetch, \<open>False\<close> when it belongs to the shifts fetch. A schedule that ends
  while \<open>Promise.all\<close> is pending gives \<open>None\<close>: the process is still waiting.
\<close>

fun await_all ::
  "(WorkplaceResult list \<Rightarrow> string) \<Rightarrow> Workplace server \<Rightarrow> Shift server \<Rightarrow> bool list
     \<Rightarrow> Workplace promise \<Rightarrow> Shift promise \<Rightarrow> process_result option" where
  "await_all JSON_stringify wserver sserver [] pw ps =
     map_option (finish JSON_stringify) (Promise_all pw ps)"
| "await_all JSON_stringify wserver sserver (b # sched) pw ps =
     (case Promise_all pw ps of
        Some r \<Rightarrow> Some (finish JSON_stringify r)
      | None \<Rightarrow>
          if b then await_all JSON_stringify wserver sserver sched (fetch_resume wserver pw) ps
          else await_all JSON_stringify wserver sserver sched pw (fetch_resume sserver ps))"

definition API_BASE_URL :: string where
  "API_BASE_URL = ''http://localhost:3000''"

definition getTopWorkplaces ::
  "(WorkplaceResult list \<Rightarrow> string) \<Rightarrow> Workplace server \<Rightarrow> Shift server \<Rightarrow> bool list
     \<Rightarrow> process_result option" where
  "getTopWorkplaces JSON_stringify wserver sserver sched =
     await_all JSON_stringify wserver sserver sched
       (fetch_suspend [] (Some (API_BASE_URL @ ''/workplaces'')))
       (fetch_suspend [] (Some (API_BASE_URL @ ''/shifts'')))"

section \<open>Notions of the specification\<close>

text \<open>
  A shift qualifies for the count table when it has a worker, is not cancelled, and its
  workplace id is a key of the active lookup.
\<close>

definition qualifies :: "(int, string) js_map \<Rightarrow> Shift \<Rightarrow> bool" where
  "qualifies active shift \<longleftrightarrow>
     workerId shift \<noteq> None \<and> cancelledAt shift = None \<and> workplaceId shift \<in> set (Map_keys active)"

text \<open>
  \<open>page_chain server url pages\<close>: the service answers the address \<open>url\<close> and the
  next-links that follow it with exactly \<open>pages\<close>, every next-link but the last is an
  address (a string that is not empty), and the next-link of the last page is \<open>null\<close>.
  With no page at all there is nothing to request: the address is empty.
  \<open>chain_urls\<close> lists the addresses of the pages.
\<close>

fun page_chain :: "'a server \<Rightarrow> string \<Rightarrow> 'a PaginatedResponse list \<Rightarrow> bool" where
  "page_chain server url [] = (url = [])"
| "page_chain server url (p # ps) =
     (url \<noteq> [] \<and> server url = Inr p \<and>
      (case next_l (links p) of
         None \<Rightarrow> ps = []
       | Some u \<Rightarrow> ps \<noteq> [] \<and> page_chain server u ps))"

fun chain_urls :: "string \<Rightarrow> 'a PaginatedResponse list \<Rightarrow> string list" where
  "chain_urls url [] = []"
| "chain_urls url (p # ps) =
     url # (case next_l (links p) of None \<Rightarrow> [] | Some u \<Rightarrow> chain_urls u ps)"


text \<open>Auxiliary notions of the proofs.\<close>

definition counted :: "(int, string) js_map \<Rightarrow> int \<Rightarrow> Shift \<Rightarrow> bool" where
  "counted active k shift \<longleftrightarrow> isCompleted shift \<and> Map_has active k \<and> workplaceId shift = k"

definition joined :: "(int, string) js_map \<Rightarrow> int \<times> int \<Rightarrow> bool" where
  "joined active entry \<longleftrightarrow>
     (case Map_get active (fst entry) of None \<Rightarrow> False | Some nm \<Rightarrow> nm \<noteq> [])"

definition result_of_entry :: "(int, string) js_map \<Rightarrow> int \<times> int \<Rightarrow> WorkplaceResult" where
  "result_of_entry active entry =
     \<lparr>name = (case Map_get active (fst entry) of None \<Rightarrow> [] | Some nm \<Rightarrow> nm), shifts = snd entry\<rparr>"

definition settled :: "'a promise \<Rightarrow> bool" where
  "settled p =
     (case p of Pending allItems url \<Rightarrow> False | Fulfilled allItems \<Rightarrow> True | Rejected e \<Rightarrow> True)"

definition settle_of :: "error + 'a list \<Rightarrow> 'a promise" where
  "settle_of r = (case r of Inl e \<Rightarrow> Rejected e | Inr allItems \<Rightarrow> Fulfilled allItems)"

section \<open>Sample data\<close>

text \<open>
  The scenarios of the specification: two active workplaces with three completed shifts
  on two pages, a workplace of status 1, a shift without a worker, a cancelled shift, a
  service that fails on the second page of shifts; further an active workplace whose name
  is empty, and a service whose next-link is never \<open>null\<close>.
\<close>

definition page_of :: "'a list \<Rightarrow> string option \<Rightarrow> 'a PaginatedResponse" where
  "page_of items nextUrl = \<lparr>data = items, links = \<lparr>next_l = nextUrl\<rparr>\<rparr>"

definition completed_shift :: "int \<Rightarrow> int \<Rightarrow> Shift" where
  "completed_shift i w = \<lparr>id_s = i, workplaceId = w, workerId = Some 7, cancelledAt = None\<rparr>"

definition unassigned_shift :: "int \<Rightarrow> int \<Rightarrow> Shift" where
  "unassigned_shift i w = \<lparr>id_s = i, workplaceId = w, workerId = None, cancelledAt = None\<rparr>"

definition cancelled_shift :: "int \<Rightarrow> int \<Rightarrow> Shift" where
  "cancelled_shift i w =
     \<lparr>id_s = i, workplaceId = w, workerId = Some 7, cancelledAt = Some ''2024-05-01T08:00:00.000Z''\<rparr>"

definition scenario_workplaces :: "Workplace list" where
  "scenario_workplaces =
     [\<lparr>id_w = 1, name_w = ''W1 name'', status = 0\<rparr>, \<lparr>id_w = 2, name_w = ''W2 name'', status = 0\<rparr>]"

definition scenario_shifts :: "Shift list" where
  "scenario_shifts = [completed_shift 1 1, completed_shift 2 2, completed_shift 3 1]"

definition inactive_workplace :: Workplace where
  "inactive_workplace = \<lparr>id_w = 4, name_w = ''W4 name'', status = 1\<rparr>"

definition unnamed_workplace :: Workplace where
  "unnamed_workplace = \<lparr>id_w = 1, name_w = [], status = 0\<rparr>"

definition scenario_wserver :: "Workplace server" where
  "scenario_wserver url =
     (if url = API_BASE_URL @ ''/workplaces'' then Inr (page_of scenario_workplaces None)
      else Inl (AxiosError ''Request failed with status code 404''))"

definition scenario_sserver :: "Shift server" where
  "scenario_sserver url =
     (if url = API_BASE_URL @ ''/shifts''
      then Inr (page_of [completed_shift 1 1, completed_shift 2 2] (Some ''/shifts?page=1''))
      else if url = ''/shifts?page=1'' then Inr (page_of [completed_shift 3 1] None)
      else Inl (AxiosError ''Request failed with status code 404''))"

definition failing_sserver :: "Shift server" where
  "failing_sserver url =
     (if url = API_BASE_URL @ ''/shifts''
      then Inr (page_of [completed_shift 1 1, completed_shift 2 2] (Some ''/shifts?page=1''))
      else Inl (AxiosError ''Request failed with status code 500''))"

definition endless_server :: "nat server" where
  "endless_server url = Inr (page_of [length url] (Some (CHR ''p'' # url)))"

text \<open>
  A service with exactly \<open>n\<close> pages from the address \<open>p\<close> on: the page at an
  address of length \<open>i\<close> holds the item \<open>i\<close> and links to an address of length
  \<open>i + 1\<close>, up to the page of length \<open>n\<close>, whose next-link is \<open>null\<close>.
\<close>

definition numbered_server :: "nat \<Rightarrow> nat server" where
  "numbered_server n url =
     Inr (page_of [length url] (if length url < n then Some (CHR ''p'' # url) else None))"

definition names_of :: "WorkplaceResult list \<Rightarrow> string" where
  "names_of report = concat (map name report)"

definition inactive_shifts :: "Shift list" where
  "inactive_shifts =
     [completed_shift 4 4, completed_shift 5 4, completed_shift 6 4, completed_shift 7 4,
      completed_shift 8 4]"

definition unnamed_scenario :: "Workplace list" where
  "unnamed_scenario = [unnamed_workplace, \<lparr>id_w = 2, name_w = ''W2 name'', status = 0\<rparr>]"

definition shifts_page1 :: "Shift PaginatedResponse" where
  "shifts_page1 = page_of [completed_shift 1 1, completed_shift 2 2] (Some ''/shifts?page=1'')"

definition shifts_page2 :: "Shift PaginatedResponse" where
  "shifts_page2 = page_of [completed_shift 3 1] None"

section \<open>Properties of the \<open>Map\<close> model\<close>

lemma Map_has_iff_get: "Map_has m k \<longleftrightarrow> Map_get m k \<noteq> None"
  by (induction m) (auto split: if_splits)

lemma Map_has_iff_keys: "Map_has m k \<longleftrightarrow> k \<in> set (Map_keys m)"
  by (induction m) (auto simp: Map_keys_def)

lemma Map_get_set: "Map_get (Map_set m k v) k' = (if k' = k then Some v else Map_get m k')"
  by (induction m) auto

lemma Map_keys_set:
  "Map_keys (Map_set m k v) = (if k \<in> set (Map_keys m) then Map_keys m else Map_keys m @ [k])"
  by (induction m) (force simp: Map_keys_def split: if_splits)+

lemma distinct_Map_set: "distinct (Map_keys m) \<Longrightarrow> distinct (Map_keys (Map_set m k v))"
  by (simp add: Map_keys_set)

lemma Map_get_in_set: "distinct (Map_keys m) \<Longrightarrow> (k, v) \<in> set m \<longleftrightarrow> Map_get m k = Some v"
  by (induction m) (auto simp: Map_keys_def rev_image_eqI split: if_splits)

lemma or_zero_simps [simp]: "or_zero None = 0" "or_zero (Some c) = c"
  by (simp_all add: or_zero_def)

lemmas pipeline_defs = top3Workplaces_def shiftCounts_def activeWorkplaceMap_def
  activeWorkplaceMap_step_def shiftCounts_step_def isCompleted_def or_zero_def
  results_of_def results_step_def compare_shifts_def

lemmas sample_defs = scenario_workplaces_def scenario_shifts_def completed_shift_def
  unassigned_shift_def cancelled_shift_def inactive_workplace_def unnamed_workplace_def
  inactive_shifts_def unnamed_scenario_def page_of_def names_of_def shifts_page1_def
  shifts_page2_def

lemmas run_defs = getTopWorkplaces_def Promise_all_def fetch_suspend_def fetch_resume_def
  finish_def report_failure_def report_success_def API_BASE_URL_def scenario_wserver_def
  scenario_sserver_def failing_sserver_def

section \<open>The active lookup\<close>

lemma activeWorkplaceMap_loop_filter:
  "activeWorkplaceMap_loop m ws = activeWorkplaceMap_loop m (filter (\<lambda>w. status w = 0) ws)"
  by (induction ws arbitrary: m) (auto simp: activeWorkplaceMap_step_def)

lemma activeWorkplaceMap_loop_has:
  "Map_has (activeWorkplaceMap_loop m ws) k \<longleftrightarrow>
     Map_has m k \<or> (\<exists>w \<in> set ws. id_w w = k \<and> status w = 0)"
  by (induction ws arbitrary: m)
     (auto simp: activeWorkplaceMap_step_def Map_has_iff_get Map_get_set)

lemma activeWorkplaceMap_loop_get:
  "Map_get (activeWorkplaceMap_loop m ws) k = Some n \<Longrightarrow>
     Map_get m k = Some n \<or> (\<exists>w \<in> set ws. id_w w = k \<and> status w = 0 \<and> name_w w = n)"
  by (induction ws arbitrary: m)
     (fastforce simp: activeWorkplaceMap_step_def Map_get_set split: if_splits)+

lemma activeWorkplaceMap_has:
  "Map_has (activeWorkplaceMap ws) k \<longleftrightarrow> (\<exists>w \<in> set ws. id_w w = k \<and> status w = 0)"
  by (simp add: activeWorkplaceMap_def activeWorkplaceMap_loop_has)

lemma activeWorkplaceMap_get:
  "Map_get (activeWorkplaceMap ws) k = Some n \<Longrightarrow>
     \<exists>w \<in> set ws. id_w w = k \<and> status w = 0 \<and> name_w w = n"
  using activeWorkplaceMap_loop_get [of "[]" ws k n] by (simp add: activeWorkplaceMap_def)

lemma activeWorkplaceMap_get_empty_name:
  assumes "w \<in> set ws" "status w = 0"
    and "\<forall>w' \<in> set ws. id_w w' = id_w w \<and> status w' = 0 \<longrightarrow> name_w w' = []"
  shows "Map_get (activeWorkplaceMap ws) (id_w w) = Some []"
proof -
  have "Map_has (activeWorkplaceMap ws) (id_w w)"
    using assms(1,2) by (auto simp: activeWorkplaceMap_has)
  then obtain nm where nm: "Map_get (activeWorkplaceMap ws) (id_w w) = Some nm"
    by (auto simp: Map_has_iff_get)
  from activeWorkplaceMap_get [OF nm] assms(3) have "nm = []"
    by auto
  with nm show ?thesis by simp
qed

section \<open>The count table\<close>

lemma shiftCounts_step_get:
  "Map_get (shiftCounts_step active counts shift) k =
     (if counted active k shift then Some (or_zero (Map_get counts k) + 1) else Map_get counts k)"
  by (auto simp: shiftCounts_step_def counted_def Map_get_set Let_def)

lemma shiftCounts_loop_get:
  "Map_get (shiftCounts_loop active counts ss) k =
     (if filter (counted active k) ss = [] then Map_get counts k
      else Some (or_zero (Map_get counts k) + int (length (filter (counted active k) ss))))"
  by (induction ss arbitrary: counts) (auto simp: shiftCounts_step_get)

lemma shiftCounts_step_distinct:
  "distinct (Map_keys counts) \<Longrightarrow> distinct (Map_keys (shiftCounts_step active counts shift))"
  by (simp add: shiftCounts_step_def distinct_Map_set Let_def)

lemma shiftCounts_loop_distinct:
  "distinct (Map_keys counts) \<Longrightarrow> distinct (Map_keys (shiftCounts_loop active counts ss))"
  by (induction ss arbitrary: counts) (auto simp: shiftCounts_step_distinct)

lemma shiftCounts_loop_append:
  "shiftCounts_loop active counts (xs @ ys) =
     shiftCounts_loop active (shiftCounts_loop active counts xs) ys"
  by (induction xs arbitrary: counts) auto

lemma counted_iff: "counted active k shift \<longleftrightarrow> qualifies active shift \<and> workplaceId shift = k"
  by (auto simp: counted_def qualifies_def isCompleted_def Map_has_iff_keys)

lemma shiftCounts_get:
  "Map_get (shiftCounts active ss) k =
     (if filter (counted active k) ss = [] then None
      else Some (int (length (filter (counted active k) ss))))"
  by (simp add: shiftCounts_def shiftCounts_loop_get)

lemma shiftCounts_step_skip:
  "\<not> qualifies active shift \<Longrightarrow> shiftCounts_step active counts shift = counts"
  by (auto simp: shiftCounts_step_def qualifies_def isCompleted_def Map_has_iff_keys)

lemma shiftCounts_skip:
  "\<not> qualifies active shift \<Longrightarrow>
     shiftCounts active (pre @ shift # post) = shiftCounts active (pre @ post)"
  by (simp add: shiftCounts_def shiftCounts_loop_append shiftCounts_step_skip)

lemma shiftCounts_insert_get:
  "Map_get (shiftCounts active (pre @ shift # post)) k =
     (if qualifies active shift \<and> k = workplaceId shift
      then Some ((case Map_get (shiftCounts active (pre @ post)) k of None \<Rightarrow> 0 | Some c \<Rightarrow> c) + 1)
      else Map_get (shiftCounts active (pre @ post)) k)"
  by (auto simp: shiftCounts_get counted_iff)

lemma shiftCounts_distinct: "distinct (Map_keys (shiftCounts active ss))"
  unfolding shiftCounts_def by (rule shiftCounts_loop_distinct) (simp add: Map_keys_def)

lemma shiftCounts_keys:
  "k \<in> set (Map_keys (shiftCounts active ss)) \<longleftrightarrow> (\<exists>s \<in> set ss. counted active k s)"
  by (auto simp: Map_has_iff_keys [symmetric] Map_has_iff_get shiftCounts_get filter_empty_conv)

text \<open>
  Claim C1. For every sequence of shifts and every active lookup, a shift adds to the
  count table if and only if it has a worker, is not cancelled, and its workplace id is
  a key of the lookup. Such a shift, wherever it stands in the sequence, raises the count
  of its own workplace id by exactly 1 (from 0 when the id has no count) and leaves every
  other count as it is; a shift without a worker, and a cancelled shift, leave the whole
  table as it is.
\<close>

theorem shift_counted_iff:
  "Map_get (shiftCounts active (pre @ shift # post)) k =
     (if qualifies active shift \<and> k = workplaceId shift
      then Some ((case Map_get (shiftCounts active (pre @ post)) k of None \<Rightarrow> 0 | Some c \<Rightarrow> c) + 1)
      else Map_get (shiftCounts active (pre @ post)) k)
   \<and> (shiftCounts active (pre @ shift # post) \<noteq> shiftCounts active (pre @ post)
        \<longleftrightarrow> qualifies active shift)
   \<and> (workerId shift = None \<longrightarrow>
        shiftCounts active (pre @ shift # post) = shiftCounts active (pre @ post))
   \<and> (cancelledAt shift \<noteq> None \<longrightarrow>
        shiftCounts active (pre @ shift # post) = shiftCounts active (pre @ post))"
proof (intro conjI impI)
  show "Map_get (shiftCounts active (pre @ shift # post)) k =
     (if qualifies active shift \<and> k = workplaceId shift
      then Some ((case Map_get (shiftCounts active (pre @ post)) k of None \<Rightarrow> 0 | Some c \<Rightarrow> c) + 1)
      else Map_get (shiftCounts active (pre @ post)) k)"
    by (rule shiftCounts_insert_get)
  show "shiftCounts active (pre @ shift # post) \<noteq> shiftCounts active (pre @ post)
        \<longleftrightarrow> qualifies active shift"
  proof
    assume "shiftCounts active (pre @ shift # post) \<noteq> shiftCounts active (pre @ post)"
    then show "qualifies active shift"
      using shiftCounts_skip by blast
  next
    assume q: "qualifies active shift"
    have "Map_get (shiftCounts active (pre @ shift # post)) (workplaceId shift)
          \<noteq> Map_get (shiftCounts active (pre @ post)) (workplaceId shift)"
      using q by (simp add: shiftCounts_insert_get split: option.splits)
    then show "shiftCounts active (pre @ shift # post) \<noteq> shiftCounts active (pre @ post)"
      by auto
  qed
  show "shiftCounts active (pre @ shift # post) = shiftCounts active (pre @ post)"
    if "workerId shift = None"
    using that by (simp add: shiftCounts_skip qualifies_def)
  show "shiftCounts active (pre @ shift # post) = shiftCounts active (pre @ post)"
    if "cancelledAt shift \<noteq> None"
    using that by (simp add: shiftCounts_skip qualifies_def)
qed

theorem shift_counted_iff_witness:
  "Map_get (shiftCounts (activeWorkplaceMap scenario_workplaces)
        ([completed_shift 1 1] @ completed_shift 3 1 # [completed_shift 2 2])) 1 = Some 2
   \<and> shiftCounts (activeWorkplaceMap scenario_workplaces)
        ([completed_shift 1 1] @ unassigned_shift 3 1 # [completed_shift 2 2])
       = shiftCounts (activeWorkplaceMap scenario_workplaces)
           ([completed_shift 1 1] @ [completed_shift 2 2])
   \<and> shiftCounts (activeWorkplaceMap scenario_workplaces)
        ([completed_shift 1 1] @ cancelled_shift 3 1 # [completed_shift 2 2])
       = shiftCounts (activeWorkplaceMap scenario_workplaces)
           ([completed_shift 1 1] @ [completed_shift 2 2])"
proof (intro conjI)
  let ?active = "activeWorkplaceMap scenario_workplaces"
  have q: "qualifies ?active (completed_shift 3 1)"
    by (simp add: qualifies_def Map_keys_def pipeline_defs sample_defs)
  have w: "workplaceId (completed_shift 3 1) = 1"
    by (simp add: completed_shift_def)
  have g: "Map_get (shiftCounts ?active ([completed_shift 1 1] @ [completed_shift 2 2])) 1 = Some 1"
    by (simp add: pipeline_defs sample_defs)
  from shift_counted_iff [of ?active "[completed_shift 1 1]" "completed_shift 3 1"
      "[completed_shift 2 2]" 1] q w g
  show "Map_get (shiftCounts ?active
        ([completed_shift 1 1] @ completed_shift 3 1 # [completed_shift 2 2])) 1 = Some 2"
    by simp
  have u: "workerId (unassigned_shift 3 1) = None"
    by (simp add: unassigned_shift_def)
  from shift_counted_iff [of ?active "[completed_shift 1 1]" "unassigned_shift 3 1"
      "[completed_shift 2 2]" 1] u
  show "shiftCounts ?active ([completed_shift 1 1] @ unassigned_shift 3 1 # [completed_shift 2 2])
       = shiftCounts ?active ([completed_shift 1 1] @ [completed_shift 2 2])"
    by blast
  have c: "cancelledAt (cancelled_shift 3 1) \<noteq> None"
    by (simp add: cancelled_shift_def)
  from shift_counted_iff [of ?active "[completed_shift 1 1]" "cancelled_shift 3 1"
      "[completed_shift 2 2]" 1] c
  show "shiftCounts ?active ([completed_shift 1 1] @ cancelled_shift 3 1 # [completed_shift 2 2])
       = shiftCounts ?active ([completed_shift 1 1] @ [completed_shift 2 2])"
    by blast
qed

text \<open>
  Claim C2. For every sequence of workplaces, only the workplaces of status 0 are entered
  into the active lookup: the lookup is the one built from the workplaces of status 0
  alone, an id is a key exactly when a workplace of status 0 carries it, and a name in
  the lookup is the name of such a workplace. An id carried only by workplaces of another
  status is not a key, and has no count, whatever shifts refer to it.
\<close>

theorem inactive_never_counted:
  "activeWorkplaceMap allWorkplaces = activeWorkplaceMap (filter (\<lambda>w. status w = 0) allWorkplaces)
   \<and> (Map_has (activeWorkplaceMap allWorkplaces) k
        \<longleftrightarrow> (\<exists>w \<in> set allWorkplaces. id_w w = k \<and> status w = 0))
   \<and> (\<forall>n. Map_get (activeWorkplaceMap allWorkplaces) k = Some n
        \<longrightarrow> (\<exists>w \<in> set allWorkplaces. id_w w = k \<and> status w = 0 \<and> name_w w = n))
   \<and> ((\<forall>w \<in> set allWorkplaces. id_w w = k \<longrightarrow> status w \<noteq> 0)
        \<longrightarrow> \<not> Map_has (activeWorkplaceMap allWorkplaces) k
          \<and> Map_get (shiftCounts (activeWorkplaceMap allWorkplaces) allShifts) k = None
          \<and> k \<notin> set (Map_keys (shiftCounts (activeWorkplaceMap allWorkplaces) allShifts)))"
proof (intro conjI impI allI)
  show "activeWorkplaceMap allWorkplaces
        = activeWorkplaceMap (filter (\<lambda>w. status w = 0) allWorkplaces)"
    unfolding activeWorkplaceMap_def by (rule activeWorkplaceMap_loop_filter)
  show "Map_has (activeWorkplaceMap allWorkplaces) k
        \<longleftrightarrow> (\<exists>w \<in> set allWorkplaces. id_w w = k \<and> status w = 0)"
    by (rule activeWorkplaceMap_has)
  show "\<exists>w \<in> set allWorkplaces. id_w w = k \<and> status w = 0 \<and> name_w w = n"
    if "Map_get (activeWorkplaceMap allWorkplaces) k = Some n" for n
    using that by (rule activeWorkplaceMap_get)
  assume inactive: "\<forall>w \<in> set allWorkplaces. id_w w = k \<longrightarrow> status w \<noteq> 0"
  then show no: "\<not> Map_has (activeWorkplaceMap allWorkplaces) k"
    by (auto simp: activeWorkplaceMap_has)
  then have "filter (counted (activeWorkplaceMap allWorkplaces) k) allShifts = []"
    by (simp add: counted_def filter_empty_conv)
  then show "Map_get (shiftCounts (activeWorkplaceMap allWorkplaces) allShifts) k = None"
    by (simp add: shiftCounts_get)
  then show "k \<notin> set (Map_keys (shiftCounts (activeWorkplaceMap allWorkplaces) allShifts))"
    by (simp add: Map_has_iff_keys [symmetric] Map_has_iff_get)
qed

theorem inactive_never_counted_witness:
  "\<not> Map_has (activeWorkplaceMap (scenario_workplaces @ [inactive_workplace])) 4
   \<and> Map_get (shiftCounts (activeWorkplaceMap (scenario_workplaces @ [inactive_workplace]))
        (scenario_shifts @ inactive_shifts)) 4 = None"
proof -
  have h: "\<forall>w \<in> set (scenario_workplaces @ [inactive_workplace]). id_w w = 4 \<longrightarrow> status w \<noteq> 0"
    by (simp add: sample_defs)
  from inactive_never_counted [of "scenario_workplaces @ [inactive_workplace]" 4
      "scenario_shifts @ inactive_shifts"] h
  show ?thesis by blast
qed

text \<open>
  Claim C7. After the aggregation loop, the keys of the count table are exactly the ids
  of the active workplaces that have at least one completed shift, no key occurs twice,
  and every count is positive and is the number of completed shifts of its workplace.
\<close>

theorem shiftCounts_invariant:
  "set (Map_keys (shiftCounts (activeWorkplaceMap allWorkplaces) allShifts))
     = {k. (\<exists>w \<in> set allWorkplaces. id_w w = k \<and> status w = 0)
         \<and> (\<exists>s \<in> set allShifts. workerId s \<noteq> None \<and> cancelledAt s = None \<and> workplaceId s = k)}
   \<and> distinct (Map_keys (shiftCounts (activeWorkplaceMap allWorkplaces) allShifts))
   \<and> (\<forall>(k, c) \<in> set (shiftCounts (activeWorkplaceMap allWorkplaces) allShifts).
        0 < c
        \<and> c = int (length (filter
              (\<lambda>s. workerId s \<noteq> None \<and> cancelledAt s = None \<and> workplaceId s = k) allShifts)))"
proof (intro conjI)
  let ?active = "activeWorkplaceMap allWorkplaces"
  let ?counts = "shiftCounts ?active allShifts"
  show "set (Map_keys ?counts)
     = {k. (\<exists>w \<in> set allWorkplaces. id_w w = k \<and> status w = 0)
         \<and> (\<exists>s \<in> set allShifts. workerId s \<noteq> None \<and> cancelledAt s = None \<and> workplaceId s = k)}"
    by (rule set_eqI)
       (simp add: shiftCounts_keys counted_def isCompleted_def activeWorkplaceMap_has, blast)
  show d: "distinct (Map_keys ?counts)"
    by (rule shiftCounts_distinct)
  show "\<forall>(k, c) \<in> set ?counts.
        0 < c
        \<and> c = int (length (filter
              (\<lambda>s. workerId s \<noteq> None \<and> cancelledAt s = None \<and> workplaceId s = k) allShifts))"
  proof (clarify)
    fix k c
    assume "(k, c) \<in> set ?counts"
    then have g: "Map_get ?counts k = Some c"
      using d by (simp add: Map_get_in_set)
    then have ne: "filter (counted ?active k) allShifts \<noteq> []"
      and c: "c = int (length (filter (counted ?active k) allShifts))"
      by (auto simp: shiftCounts_get split: if_splits)
    from ne obtain s where "s \<in> set allShifts" "counted ?active k s"
      by (auto simp: filter_empty_conv)
    then have has: "Map_has ?active k"
      by (simp add: counted_def)
    have "counted ?active k = (\<lambda>s. workerId s \<noteq> None \<and> cancelledAt s = None \<and> workplaceId s = k)"
      using has by (intro ext) (simp add: counted_def isCompleted_def)
    then have "filter (counted ?active k) allShifts
       = filter (\<lambda>s. workerId s \<noteq> None \<and> cancelledAt s = None \<and> workplaceId s = k) allShifts"
      by (rule arg_cong)
    with ne c show "0 < c \<and> c = int (length (filter
              (\<lambda>s. workerId s \<noteq> None \<and> cancelledAt s = None \<and> workplaceId s = k) allShifts))"
      by simp
  qed
qed

theorem shiftCounts_invariant_witness:
  "shiftCounts (activeWorkplaceMap scenario_workplaces) scenario_shifts = [(1, 2), (2, 1)]
   \<and> int (length (filter (\<lambda>s. workerId s \<noteq> None \<and> cancelledAt s = None \<and> workplaceId s = 1)
        scenario_shifts)) = 2
   \<and> distinct (Map_keys (shiftCounts (activeWorkplaceMap scenario_workplaces) scenario_shifts))"
proof -
  let ?counts = "shiftCounts (activeWorkplaceMap scenario_workplaces) scenario_shifts"
  have e: "?counts = [(1, 2), (2, 1)]"
    by (simp add: pipeline_defs sample_defs)
  then have m: "(1, 2) \<in> set ?counts"
    by simp
  note inv = shiftCounts_invariant [of scenario_workplaces scenario_shifts]
  from conjunct2 [OF conjunct2 [OF inv]] m have "int (length (filter (\<lambda>s. workerId s \<noteq> None \<and> cancelledAt s = None \<and> workplaceId s = 1)
        scenario_shifts)) = 2"
    by fastforce
  moreover from inv have "distinct (Map_keys ?counts)"
    by blast
  ultimately show ?thesis
    using e by blast
qed

section \<open>The join, the sort and the cut to three\<close>

lemma results_step_eq:
  "results_step active results entry =
     results @ (if joined active entry then [result_of_entry active entry] else [])"
  by (simp add: results_step_def joined_def result_of_entry_def split: option.splits)

lemma results_loop_eq:
  "results_loop active results counts =
     results @ map (result_of_entry active) (filter (joined active) counts)"
  by (induction counts arbitrary: results) (simp_all add: results_step_eq)

lemma results_of_eq:
  "results_of active counts = map (result_of_entry active) (filter (joined active) counts)"
  by (simp add: results_of_def results_loop_eq)

lemma results_of_skip:
  "\<not> joined active entry \<Longrightarrow>
     results_of active (pre @ entry # post) = results_of active (pre @ post)"
  by (simp add: results_of_eq)

lemma set_insert_sorted: "set (insert_sorted cmp x ys) = insert x (set ys)"
  by (induction ys) auto

lemma length_insert_sorted: "length (insert_sorted cmp x ys) = Suc (length ys)"
  by (induction ys) auto

lemma set_array_sort: "set (array_sort cmp xs) = set xs"
  by (induction xs) (auto simp: set_insert_sorted)

lemma length_array_sort: "length (array_sort cmp xs) = length xs"
  by (induction xs) (auto simp: length_insert_sorted)

lemma sorted_insert_sorted:
  "sorted_wrt (\<lambda>a b. shifts b \<le> shifts a) ys \<Longrightarrow>
     sorted_wrt (\<lambda>a b. shifts b \<le> shifts a) (insert_sorted compare_shifts x ys)"
  by (induction ys) (auto simp: set_insert_sorted compare_shifts_def)

lemma sorted_array_sort:
  "sorted_wrt (\<lambda>a b. shifts b \<le> shifts a) (array_sort compare_shifts xs)"
  by (induction xs) (auto simp: sorted_insert_sorted)

text \<open>The sort is the stable sort of the library by descending count.\<close>

lemma insert_sorted_insort_key:
  "insert_sorted compare_shifts x ys = insort_key (\<lambda>r. - shifts r) x ys"
  by (induction ys) (auto simp: compare_shifts_def)

lemma array_sort_sort_key:
  "array_sort compare_shifts xs = sort_key (\<lambda>r. - shifts r) xs"
  by (induction xs) (auto simp: insert_sorted_insort_key)

lemma top3Workplaces_eq:
  "top3Workplaces ws ss =
     take 3 (array_sort compare_shifts
       (map (result_of_entry (activeWorkplaceMap ws))
          (filter (joined (activeWorkplaceMap ws)) (shiftCounts (activeWorkplaceMap ws) ss))))"
  by (simp add: top3Workplaces_def results_of_eq Let_def)

lemma length_filter_keys:
  assumes "distinct (Map_keys m)"
  shows "length (filter P m) = card {k. \<exists>v. (k, v) \<in> set m \<and> P (k, v)}"
proof -
  have d: "distinct (map fst (filter P m))"
    using assms by (simp add: Map_keys_def distinct_map_filter)
  have "length (filter P m) = length (map fst (filter P m))" by simp
  also have "\<dots> = card (set (map fst (filter P m)))"
    using distinct_card [OF d] by simp
  also have "set (map fst (filter P m)) = {k. \<exists>v. (k, v) \<in> set m \<and> P (k, v)}"
    by force
  finally show ?thesis .
qed

lemma joined_keys:
  "{k. \<exists>c. (k, c) \<in> set (shiftCounts (activeWorkplaceMap ws) ss) \<and> joined (activeWorkplaceMap ws) (k, c)}
   = {k. (\<exists>s \<in> set ss. workerId s \<noteq> None \<and> cancelledAt s = None \<and> workplaceId s = k)
        \<and> (\<exists>nm. Map_get (activeWorkplaceMap ws) k = Some nm \<and> nm \<noteq> [])}"
proof (rule set_eqI, simp, rule iffI)
  fix k
  let ?active = "activeWorkplaceMap ws"
  assume "\<exists>c. (k, c) \<in> set (shiftCounts ?active ss) \<and> joined ?active (k, c)"
  then obtain c where c: "(k, c) \<in> set (shiftCounts ?active ss)" and j: "joined ?active (k, c)"
    by blast
  from c have "k \<in> set (Map_keys (shiftCounts ?active ss))"
    by (force simp: Map_keys_def)
  then have "\<exists>s \<in> set ss. counted ?active k s"
    by (simp add: shiftCounts_keys)
  moreover from j have "\<exists>nm. Map_get ?active k = Some nm \<and> nm \<noteq> []"
    by (simp add: joined_def split: option.splits)
  ultimately show "(\<exists>s \<in> set ss. (\<exists>y. workerId s = Some y) \<and> cancelledAt s = None \<and> workplaceId s = k)
        \<and> (\<exists>nm. Map_get ?active k = Some nm \<and> nm \<noteq> [])"
    by (auto simp: counted_def isCompleted_def)
next
  fix k
  let ?active = "activeWorkplaceMap ws"
  assume a: "(\<exists>s \<in> set ss. (\<exists>y. workerId s = Some y) \<and> cancelledAt s = None \<and> workplaceId s = k)
        \<and> (\<exists>nm. Map_get ?active k = Some nm \<and> nm \<noteq> [])"
  then have has: "Map_has ?active k"
    by (auto simp: Map_has_iff_get)
  with a have "\<exists>s \<in> set ss. counted ?active k s"
    by (auto simp: counted_def isCompleted_def)
  then have "k \<in> set (Map_keys (shiftCounts ?active ss))"
    by (simp add: shiftCounts_keys)
  then obtain c where c: "(k, c) \<in> set (shiftCounts ?active ss)"
    by (auto simp: Map_keys_def)
  moreover from a have "joined ?active (k, c)"
    by (auto simp: joined_def)
  ultimately show "\<exists>c. (k, c) \<in> set (shiftCounts ?active ss) \<and> joined ?active (k, c)"
    by blast
qed

text \<open>
  Claim C8. For every pair of the count table the join resolves the name through the
  active lookup and includes the pair whenever the lookup resolves the id; only a pair
  whose name cannot be resolved is skipped. The join of lines 105 to 111 departs from
  this on an active workplace whose name is the empty string: the lookup resolves the
  id 1 (line 95 has counted its shift on that ground), the count table holds the pair
  (1, 1), and the test \<open>if (name)\<close> of line 108 skips the pair.
\<close>

theorem join_skips_resolved_empty_name:
  "(1, 1) \<in> set (shiftCounts (activeWorkplaceMap [unnamed_workplace]) [completed_shift 1 1])
   \<and> Map_get (activeWorkplaceMap [unnamed_workplace]) 1 = Some []
   \<and> results_of (activeWorkplaceMap [unnamed_workplace])
        (shiftCounts (activeWorkplaceMap [unnamed_workplace]) [completed_shift 1 1]) = []"
  by (simp add: shiftCounts_def activeWorkplaceMap_def
      activeWorkplaceMap_step_def shiftCounts_step_def isCompleted_def or_zero_def
      results_of_def results_step_def unnamed_workplace_def completed_shift_def)

text \<open>
  What the join of lines 105 to 111 computes, pair by pair, on every input.
\<close>

lemma results_of_concat:
  "results_of active counts =
     concat (map (\<lambda>(k, c). case Map_get active k of
                              None \<Rightarrow> []
                            | Some nm \<Rightarrow> if nm \<noteq> [] then [\<lparr>name = nm, shifts = c\<rparr>] else [])
                 counts)
   \<and> ((k, c) \<in> set counts \<and> Map_get active k = Some nm \<and> nm \<noteq> []
        \<longrightarrow> \<lparr>name = nm, shifts = c\<rparr> \<in> set (results_of active counts))
   \<and> (Map_get active k = None \<or> Map_get active k = Some []
        \<longrightarrow> results_of active (pre @ (k, c) # post) = results_of active (pre @ post))"
proof (intro conjI impI)
  show "results_of active counts =
     concat (map (\<lambda>(k, c). case Map_get active k of
                              None \<Rightarrow> []
                            | Some nm \<Rightarrow> if nm \<noteq> [] then [\<lparr>name = nm, shifts = c\<rparr>] else [])
                 counts)"
    unfolding results_of_eq
    by (induction counts)
       (auto simp: joined_def result_of_entry_def split: option.splits)
  show "\<lparr>name = nm, shifts = c\<rparr> \<in> set (results_of active counts)"
    if "(k, c) \<in> set counts \<and> Map_get active k = Some nm \<and> nm \<noteq> []"
  proof -
    from that have "joined active (k, c)" and "result_of_entry active (k, c) = \<lparr>name = nm, shifts = c\<rparr>"
      by (simp_all add: joined_def result_of_entry_def)
    with that show ?thesis
      unfolding results_of_eq by force
  qed
  show "results_of active (pre @ (k, c) # post) = results_of active (pre @ post)"
    if "Map_get active k = None \<or> Map_get active k = Some []"
    using that by (intro results_of_skip) (auto simp: joined_def)
qed

text \<open>
  Claim C3. The report has at most 3 entries, in non-increasing order of \<open>shifts\<close>,
  and when fewer than 3 active workplaces have a completed shift it has exactly that
  many entries. The code departs from the last part on an active workplace whose name
  is the empty string: one active workplace has a completed shift, the count table
  holds its count, and the report has no entry.
\<close>

theorem report_misses_empty_named_workplace:
  "shiftCounts (activeWorkplaceMap [unnamed_workplace]) [completed_shift 1 1] = [(1, 1)]
   \<and> top3Workplaces [unnamed_workplace] [completed_shift 1 1] = []"
  by (simp add: top3Workplaces_def shiftCounts_def activeWorkplaceMap_def
      activeWorkplaceMap_step_def shiftCounts_step_def isCompleted_def or_zero_def
      results_of_def results_step_def unnamed_workplace_def completed_shift_def)

text \<open>
  The length and the order of the report that lines 105 to 114 compute, on every input.
\<close>

lemma report_length_sorted:
  "length (top3Workplaces allWorkplaces allShifts) \<le> 3
   \<and> sorted_wrt (\<lambda>a b. shifts b \<le> shifts a) (top3Workplaces allWorkplaces allShifts)
   \<and> length (top3Workplaces allWorkplaces allShifts)
       = min 3 (card {k. (\<exists>s \<in> set allShifts.
                           workerId s \<noteq> None \<and> cancelledAt s = None \<and> workplaceId s = k)
                      \<and> (\<exists>nm. Map_get (activeWorkplaceMap allWorkplaces) k = Some nm \<and> nm \<noteq> [])})"
proof (intro conjI)
  let ?active = "activeWorkplaceMap allWorkplaces"
  let ?counts = "shiftCounts ?active allShifts"
  show "length (top3Workplaces allWorkplaces allShifts) \<le> 3"
    by (simp add: top3Workplaces_eq)
  show "sorted_wrt (\<lambda>a b. shifts b \<le> shifts a) (top3Workplaces allWorkplaces allShifts)"
    unfolding top3Workplaces_eq by (intro sorted_wrt_take sorted_array_sort)
  have "length (top3Workplaces allWorkplaces allShifts)
        = min 3 (length (filter (joined ?active) ?counts))"
    by (simp add: top3Workplaces_eq length_array_sort min.commute)
  also have "length (filter (joined ?active) ?counts)
        = card {k. \<exists>c. (k, c) \<in> set ?counts \<and> joined ?active (k, c)}"
    by (rule length_filter_keys) (rule shiftCounts_distinct)
  finally show "length (top3Workplaces allWorkplaces allShifts)
       = min 3 (card {k. (\<exists>s \<in> set allShifts.
                           workerId s \<noteq> None \<and> cancelledAt s = None \<and> workplaceId s = k)
                      \<and> (\<exists>nm. Map_get ?active k = Some nm \<and> nm \<noteq> [])})"
    by (simp only: joined_keys)
qed

text \<open>
  Claim C10. When an active workplace has the empty string as its name (and no other
  active workplace of the same id has another name) and at least one completed shift,
  the lookup does resolve its id, to the empty string, and the count table has a
  positive count for it, yet the report is the one computed from the count table
  without that id: the workplace is left out. No entry of a report has an empty name.
\<close>

theorem empty_name_omitted:
  assumes "w \<in> set allWorkplaces" and "status w = 0" and "name_w w = []"
    and "\<forall>w' \<in> set allWorkplaces. id_w w' = id_w w \<and> status w' = 0 \<longrightarrow> name_w w' = []"
    and "s \<in> set allShifts" and "workerId s \<noteq> None" and "cancelledAt s = None"
    and "workplaceId s = id_w w"
  shows "Map_get (activeWorkplaceMap allWorkplaces) (id_w w) = Some []
    \<and> (\<exists>c. 0 < c \<and> (id_w w, c) \<in> set (shiftCounts (activeWorkplaceMap allWorkplaces) allShifts))
    \<and> top3Workplaces allWorkplaces allShifts
        = take 3 (array_sort compare_shifts
            (results_of (activeWorkplaceMap allWorkplaces)
               (filter (\<lambda>entry. fst entry \<noteq> id_w w)
                  (shiftCounts (activeWorkplaceMap allWorkplaces) allShifts))))
    \<and> (\<forall>r \<in> set (top3Workplaces allWorkplaces allShifts). name r \<noteq> [])"
proof (intro conjI)
  let ?active = "activeWorkplaceMap allWorkplaces"
  let ?counts = "shiftCounts ?active allShifts"
  show g: "Map_get ?active (id_w w) = Some []"
    using assms(1,2,4) by (rule activeWorkplaceMap_get_empty_name)
  have "counted ?active (id_w w) s"
    using assms g by (simp add: counted_def isCompleted_def Map_has_iff_get)
  with assms(5) have ne: "filter (counted ?active (id_w w)) allShifts \<noteq> []"
    by (auto simp: filter_empty_conv)
  then have "Map_get ?counts (id_w w) = Some (int (length (filter (counted ?active (id_w w)) allShifts)))"
    by (simp add: shiftCounts_get)
  then have "(id_w w, int (length (filter (counted ?active (id_w w)) allShifts))) \<in> set ?counts"
    by (simp add: Map_get_in_set [OF shiftCounts_distinct])
  with ne show "\<exists>c. 0 < c \<and> (id_w w, c) \<in> set ?counts"
    by (intro exI [of _ "int (length (filter (counted ?active (id_w w)) allShifts))"]) simp
  have "filter (joined ?active) ?counts
        = filter (joined ?active) (filter (\<lambda>entry. fst entry \<noteq> id_w w) ?counts)"
    using g by (auto simp: joined_def intro!: filter_cong)
  then show "top3Workplaces allWorkplaces allShifts
        = take 3 (array_sort compare_shifts
            (results_of ?active (filter (\<lambda>entry. fst entry \<noteq> id_w w) ?counts)))"
    by (simp add: top3Workplaces_def Let_def results_of_eq)
  show "\<forall>r \<in> set (top3Workplaces allWorkplaces allShifts). name r \<noteq> []"
  proof
    fix r assume "r \<in> set (top3Workplaces allWorkplaces allShifts)"
    then have "r \<in> set (map (result_of_entry ?active) (filter (joined ?active) ?counts))"
      unfolding top3Workplaces_eq by (auto dest: in_set_takeD simp: set_array_sort)
    then show "name r \<noteq> []"
      by (auto simp: joined_def result_of_entry_def split: option.splits)
  qed
qed

theorem empty_name_omitted_witness:
  "Map_get (activeWorkplaceMap unnamed_scenario) (id_w unnamed_workplace) = Some []
   \<and> top3Workplaces unnamed_scenario scenario_shifts
       = take 3 (array_sort compare_shifts
           (results_of (activeWorkplaceMap unnamed_scenario)
              (filter (\<lambda>entry. fst entry \<noteq> id_w unnamed_workplace)
                 (shiftCounts (activeWorkplaceMap unnamed_scenario) scenario_shifts))))"
proof -
  have "unnamed_workplace \<in> set unnamed_scenario" "status unnamed_workplace = 0"
    "name_w unnamed_workplace = []"
    "\<forall>w' \<in> set unnamed_scenario.
       id_w w' = id_w unnamed_workplace \<and> status w' = 0 \<longrightarrow> name_w w' = []"
    "completed_shift 1 1 \<in> set scenario_shifts" "workerId (completed_shift 1 1) \<noteq> None"
    "cancelledAt (completed_shift 1 1) = None"
    "workplaceId (completed_shift 1 1) = id_w unnamed_workplace"
    by (simp_all add: sample_defs)
  from empty_name_omitted [OF this] show ?thesis
    by blast
qed

section \<open>The paginated fetcher: pages, requests, termination\<close>

lemma fetch_loop_chain:
  "page_chain server url ps \<Longrightarrow>
     fetch_loop server allItems (Some url) requests
       = Some (Inr (allItems @ concat (map data ps)), requests @ chain_urls url ps)"
proof (induction ps arbitrary: url allItems requests)
  case Nil
  then show ?case by (simp add: fetch_loop.simps)
next
  case (Cons p ps)
  show ?case
  proof (cases "next_l (links p)")
    case None
    with Cons.prems show ?thesis
      by (simp add: fetch_loop.simps [of _ _ "Some url"] fetch_loop.simps [of _ _ None] axios_get_def)
  next
    case (Some u)
    with Cons.prems have "page_chain server u ps" by simp
    from Cons.IH [OF this] Some Cons.prems show ?thesis
      by (simp add: fetch_loop.simps [of _ _ "Some url"] axios_get_def)
  qed
qed

lemma length_chain_urls: "page_chain server url ps \<Longrightarrow> length (chain_urls url ps) = length ps"
  by (induction ps arbitrary: url) (auto split: option.splits)

lemmas fetch_loop_induct = fetch_loop.raw_induct [rotated 1, consumes 1, case_names step]

lemma fetch_loop_never_null:
  assumes "fetch_loop server allItems nextUrl requests = Some y"
    and "\<forall>u. u \<noteq> [] \<longrightarrow> (\<exists>p u'. server u = Inr p \<and> next_l (links p) = Some u' \<and> u' \<noteq> [])"
  shows "nextUrl = None \<or> nextUrl = Some []"
  using assms
proof (induction rule: fetch_loop_induct)
  case (step fetch_loop server allItems nextUrl requests y)
  show ?case
  proof (rule ccontr)
    assume "\<not> (nextUrl = None \<or> nextUrl = Some [])"
    then obtain url where url: "nextUrl = Some url" "url \<noteq> []" by auto
    from step.prems url(2) obtain p u' where
      p: "server url = Inr p" "next_l (links p) = Some u'" "u' \<noteq> []" by blast
    from step.hyps url p have "fetch_loop server (allItems @ data p) (Some u') (requests @ [url]) = Some y"
      by (simp add: axios_get_def)
    from step.IH [OF this step.prems] p(3) show False by simp
  qed
qed


lemma fetch_loop_numbered:
  "url \<noteq> [] \<Longrightarrow> length url \<le> n \<Longrightarrow>
     \<exists>requests'. fetch_loop (numbered_server n) allItems (Some url) requests
         = Some (Inr (allItems @ [length url..<Suc n]), requests')
       \<and> length requests' = length requests + (Suc n - length url)"
proof (induction "n - length url" arbitrary: url allItems requests)
  case 0
  then have "length url = n" by simp
  with "0.prems" show ?case
    by (simp add: fetch_loop.simps [of _ _ "Some url"] fetch_loop.simps [of _ _ None]
        axios_get_def numbered_server_def page_of_def)
next
  case (Suc d)
  then have lt: "length url < n" and d: "d = n - length (CHR ''p'' # url)"
    by simp_all
  from lt have le: "length (CHR ''p'' # url) \<le> n" by simp
  from Suc.hyps(1) [OF d _ le, of "allItems @ [length url]" "requests @ [url]"]
  obtain requests' where r:
    "fetch_loop (numbered_server n) (allItems @ [length url]) (Some (CHR ''p'' # url)) (requests @ [url])
       = Some (Inr ((allItems @ [length url]) @ [length (CHR ''p'' # url)..<Suc n]), requests')"
    "length requests' = length (requests @ [url]) + (Suc n - length (CHR ''p'' # url))"
    by auto
  have "[length url..<Suc n] = length url # [Suc (length url)..<Suc n]"
    using lt by (simp add: upt_conv_Cons)
  with r lt Suc.prems show ?case
    by (simp add: fetch_loop.simps [of _ allItems "Some url"] axios_get_def numbered_server_def
        page_of_def)
qed

lemma fetch_numbered:
  "0 < n \<Longrightarrow> \<exists>requests'. fetchAllPaginatedData (numbered_server n) ''p'' []
         = Some (Inr [1..<Suc n], requests') \<and> length requests' = n"
  using fetch_loop_numbered [of "''p''" n "[]" "[]"]
  by (simp add: fetchAllPaginatedData_def)

text \<open>
  Claim C4. For every finite sequence of pages served along the next-links from the
  initial address, the last of which has the next-link \<open>null\<close>, the fetch returns the
  concatenation of the item lists of the pages, in page order and with the order inside
  each page kept, for any number of pages (none, one, several).
\<close>

theorem fetch_concatenates_pages:
  "page_chain server initialUrl pages \<Longrightarrow>
     map_option fst (fetchAllPaginatedData server initialUrl requests)
       = Some (Inr (concat (map data pages)))"
  by (simp add: fetchAllPaginatedData_def fetch_loop_chain)

theorem fetch_concatenates_pages_witness:
  "map_option fst (fetchAllPaginatedData scenario_sserver (API_BASE_URL @ ''/shifts'') [])
     = Some (Inr (concat (map data [shifts_page1, shifts_page2])))
   \<and> concat (map data [shifts_page1, shifts_page2]) = scenario_shifts
   \<and> map_option fst (fetchAllPaginatedData scenario_wserver (API_BASE_URL @ ''/workplaces'') [])
     = Some (Inr (concat (map data [page_of scenario_workplaces None])))
   \<and> map_option fst (fetchAllPaginatedData scenario_sserver [] [])
     = Some (Inr (concat (map data ([] :: Shift PaginatedResponse list))))"
proof (intro conjI)
  have two: "page_chain scenario_sserver (API_BASE_URL @ ''/shifts'') [shifts_page1, shifts_page2]"
    by (simp add: scenario_sserver_def API_BASE_URL_def shifts_page1_def shifts_page2_def
        page_of_def)
  from fetch_concatenates_pages [OF two]
  show "map_option fst (fetchAllPaginatedData scenario_sserver (API_BASE_URL @ ''/shifts'') [])
     = Some (Inr (concat (map data [shifts_page1, shifts_page2])))" .
  show "concat (map data [shifts_page1, shifts_page2]) = scenario_shifts"
    by (simp add: sample_defs)
  have one: "page_chain scenario_wserver (API_BASE_URL @ ''/workplaces'')
      [page_of scenario_workplaces None]"
    by (simp add: scenario_wserver_def API_BASE_URL_def page_of_def)
  from fetch_concatenates_pages [OF one]
  show "map_option fst (fetchAllPaginatedData scenario_wserver (API_BASE_URL @ ''/workplaces'') [])
     = Some (Inr (concat (map data [page_of scenario_workplaces None])))" .
  have none: "page_chain scenario_sserver [] []"
    by simp
  from fetch_concatenates_pages [OF none]
  show "map_option fst (fetchAllPaginatedData scenario_sserver [] [])
     = Some (Inr (concat (map data ([] :: Shift PaginatedResponse list))))" .
qed

text \<open>
  Claim C5. For every sequence of pages served along the next-links, the last of which
  has the next-link \<open>null\<close>, the fetch returns, and the requests it has issued are
  exactly the addresses of these pages, one request for each page and none after the
  page with the \<open>null\<close> next-link. The loop has no bound on the number of pages: with a
  service whose every page links to a further address, the fetch never returns, and
  for every \<open>n\<close> there is a service of \<open>n\<close> pages that the fetch reads to the end with
  \<open>n\<close> requests.
\<close>

theorem fetch_stops_at_null_link:
  "(page_chain server initialUrl pages \<longrightarrow>
      map_option snd (fetchAllPaginatedData server initialUrl requests)
        = Some (requests @ chain_urls initialUrl pages)
      \<and> length (chain_urls initialUrl pages) = length pages)
   \<and> (initialUrl \<noteq> []
       \<and> (\<forall>u. u \<noteq> [] \<longrightarrow> (\<exists>p u'. server u = Inr p \<and> next_l (links p) = Some u' \<and> u' \<noteq> []))
      \<longrightarrow> fetchAllPaginatedData server initialUrl requests = None)
   \<and> (0 < n \<longrightarrow>
        (\<exists>requests'. fetchAllPaginatedData (numbered_server n) ''p'' []
            = Some (Inr [1..<Suc n], requests') \<and> length requests' = n))"
proof (intro conjI impI)
  assume "0 < n"
  then show "\<exists>requests'. fetchAllPaginatedData (numbered_server n) ''p'' []
            = Some (Inr [1..<Suc n], requests') \<and> length requests' = n"
    by (rule fetch_numbered)
next
  assume "page_chain server initialUrl pages"
  then show "map_option snd (fetchAllPaginatedData server initialUrl requests)
        = Some (requests @ chain_urls initialUrl pages)"
    and "length (chain_urls initialUrl pages) = length pages"
    by (simp_all add: fetchAllPaginatedData_def fetch_loop_chain length_chain_urls)
next
  assume a: "initialUrl \<noteq> []
       \<and> (\<forall>u. u \<noteq> [] \<longrightarrow> (\<exists>p u'. server u = Inr p \<and> next_l (links p) = Some u' \<and> u' \<noteq> []))"
  show "fetchAllPaginatedData server initialUrl requests = None"
  proof (rule ccontr)
    assume "fetchAllPaginatedData server initialUrl requests \<noteq> None"
    then obtain y where "fetch_loop server [] (Some initialUrl) requests = Some y"
      by (auto simp: fetchAllPaginatedData_def)
    from fetch_loop_never_null [OF this] a show False by simp
  qed
qed

theorem fetch_stops_at_null_link_witness:
  "map_option snd (fetchAllPaginatedData scenario_sserver (API_BASE_URL @ ''/shifts'') [])
     = Some [API_BASE_URL @ ''/shifts'', ''/shifts?page=1'']
   \<and> fetchAllPaginatedData endless_server ''p'' [] = None
   \<and> map_option fst (fetchAllPaginatedData (numbered_server 3) ''p'' []) = Some (Inr [1, 2, 3])"
proof (intro conjI)
  from fetch_stops_at_null_link [of scenario_sserver "[]" "[]" "[]" 3]
  obtain requests' where
    "fetchAllPaginatedData (numbered_server 3) ''p'' [] = Some (Inr [1..<Suc 3], requests')"
    by auto
  moreover have "[1..<Suc 3] = [1, 2, 3]"
    by (simp add: upt_conv_Cons)
  ultimately show
    "map_option fst (fetchAllPaginatedData (numbered_server 3) ''p'' []) = Some (Inr [1, 2, 3])"
    by simp
next
  have two: "page_chain scenario_sserver (API_BASE_URL @ ''/shifts'') [shifts_page1, shifts_page2]"
    by (simp add: scenario_sserver_def API_BASE_URL_def shifts_page1_def shifts_page2_def
        page_of_def)
  have urls: "chain_urls (API_BASE_URL @ ''/shifts'') [shifts_page1, shifts_page2]
      = [API_BASE_URL @ ''/shifts'', ''/shifts?page=1'']"
    by (simp add: shifts_page1_def shifts_page2_def page_of_def)
  from fetch_stops_at_null_link [of scenario_sserver "API_BASE_URL @ ''/shifts''"
      "[shifts_page1, shifts_page2]" "[]" 0] two urls
  show "map_option snd (fetchAllPaginatedData scenario_sserver (API_BASE_URL @ ''/shifts'') [])
     = Some [API_BASE_URL @ ''/shifts'', ''/shifts?page=1'']"
    by simp
  have endless: "''p'' \<noteq> []
      \<and> (\<forall>u. u \<noteq> [] \<longrightarrow>
            (\<exists>p u'. endless_server u = Inr p \<and> next_l (links p) = Some u' \<and> u' \<noteq> []))"
    by (simp add: endless_server_def page_of_def)
  from fetch_stops_at_null_link [of endless_server "''p''" "[]" "[]" 0] endless
  show "fetchAllPaginatedData endless_server ''p'' [] = None"
    by blast
qed

section \<open>The two concurrent fetches\<close>

text \<open>
  The fetch as a coroutine and the fetch as a loop agree: the loop returns a result
  exactly when resuming the coroutine often enough settles it with that result.
\<close>

lemma fetch_resume_settled: "settled p \<Longrightarrow> fetch_resume server p = p"
  by (cases p) (simp_all add: settled_def fetch_resume_def)

lemma funpow_resume_settled: "settled p \<Longrightarrow> (fetch_resume server ^^ n) p = p"
  by (induction n) (simp_all add: fetch_resume_settled)

lemma settled_unique:
  assumes "(fetch_resume server ^^ i) p = q" "settled q"
    and "(fetch_resume server ^^ j) p = q'" "settled q'"
  shows "q = q'"
proof (cases "i \<le> j")
  case True
  have "(fetch_resume server ^^ ((j - i) + i)) p
        = (fetch_resume server ^^ (j - i)) ((fetch_resume server ^^ i) p)"
    by (simp only: funpow_add comp_apply)
  with True have "(fetch_resume server ^^ j) p = (fetch_resume server ^^ (j - i)) ((fetch_resume server ^^ i) p)"
    by simp
  with assms show ?thesis by (simp add: funpow_resume_settled)
next
  case False
  have "(fetch_resume server ^^ ((i - j) + j)) p
        = (fetch_resume server ^^ (i - j)) ((fetch_resume server ^^ j) p)"
    by (simp only: funpow_add comp_apply)
  with False have "(fetch_resume server ^^ i) p = (fetch_resume server ^^ (i - j)) ((fetch_resume server ^^ j) p)"
    by simp
  with assms show ?thesis by (simp add: funpow_resume_settled)
qed

lemma fetch_loop_resume:
  "fetch_loop server allItems nextUrl requests = Some y \<Longrightarrow>
     \<exists>n. (fetch_resume server ^^ n) (fetch_suspend allItems nextUrl) = settle_of (fst y)"
proof (induction rule: fetch_loop_induct)
  case (step fetch_loop server allItems nextUrl requests y)
  show ?case
  proof (cases "fetch_suspend allItems nextUrl")
    case (Pending items url)
    then have url: "nextUrl = Some url" "url \<noteq> []" "items = allItems"
      by (auto simp: fetch_suspend_def split: option.splits if_splits)
    show ?thesis
    proof (cases "server url")
      case (Inl e)
      with step.hyps url have "y = (Inl e, requests @ [url])"
        by (simp add: axios_get_def)
      moreover have "(fetch_resume server ^^ 1) (fetch_suspend allItems nextUrl) = Rejected e"
        using Pending Inl by (simp add: fetch_resume_def)
      ultimately show ?thesis
        unfolding settle_of_def by (intro exI [of _ 1]) simp
    next
      case (Inr response)
      with step.hyps url have
        "fetch_loop server (allItems @ data response) (next_l (links response)) (requests @ [url]) = Some y"
        by (simp add: axios_get_def)
      from step.IH [OF this] obtain n where
        n: "(fetch_resume server ^^ n) (fetch_suspend (allItems @ data response) (next_l (links response)))
            = settle_of (fst y)" ..
      have "fetch_resume server (fetch_suspend allItems nextUrl)
            = fetch_suspend (allItems @ data response) (next_l (links response))"
        using Pending Inr url by (simp add: fetch_resume_def)
      with n have "(fetch_resume server ^^ Suc n) (fetch_suspend allItems nextUrl) = settle_of (fst y)"
        by (simp add: funpow_swap1)
      then show ?thesis ..
    qed
  next
    case (Fulfilled items)
    then have "nextUrl = None \<or> nextUrl = Some []" and "items = allItems"
      by (auto simp: fetch_suspend_def split: option.splits if_splits)
    with step.hyps have "y = (Inr allItems, requests)"
      by auto
    with Fulfilled \<open>items = allItems\<close>
    have "(fetch_resume server ^^ 0) (fetch_suspend allItems nextUrl) = settle_of (fst y)"
      by (simp add: settle_of_def)
    then show ?thesis ..
  next
    case (Rejected e)
    then show ?thesis
      by (auto simp: fetch_suspend_def split: option.splits if_splits)
  qed
qed

lemma resume_fetch_loop:
  "(fetch_resume server ^^ n) (fetch_suspend allItems nextUrl) = q \<Longrightarrow> settled q \<Longrightarrow>
     \<exists>r requests'. fetch_loop server allItems nextUrl requests = Some (r, requests') \<and> q = settle_of r"
proof (induction n arbitrary: allItems nextUrl requests)
  case 0
  then have "nextUrl = None \<or> nextUrl = Some []" and "q = Fulfilled allItems"
    by (auto simp: fetch_suspend_def settled_def split: option.splits if_splits)
  then show ?case
    by (elim disjE)
       (simp_all add: fetch_loop.simps [of _ _ None] fetch_loop.simps [of _ _ "Some []"] settle_of_def)
next
  case (Suc n)
  show ?case
  proof (cases "fetch_suspend allItems nextUrl")
    case (Pending items url)
    then have url: "nextUrl = Some url" "url \<noteq> []" "items = allItems"
      by (auto simp: fetch_suspend_def split: option.splits if_splits)
    show ?thesis
    proof (cases "server url")
      case (Inl e)
      then have "fetch_resume server (fetch_suspend allItems nextUrl) = Rejected e"
        using Pending by (simp add: fetch_resume_def)
      with Suc.prems have "q = Rejected e"
        by (simp add: funpow_swap1 funpow_resume_settled settled_def)
      with Inl url show ?thesis
        by (simp add: fetch_loop.simps [of _ _ "Some url"] axios_get_def settle_of_def)
    next
      case (Inr response)
      then have "fetch_resume server (fetch_suspend allItems nextUrl)
            = fetch_suspend (allItems @ data response) (next_l (links response))"
        using Pending url by (simp add: fetch_resume_def)
      with Suc.prems have
        "(fetch_resume server ^^ n) (fetch_suspend (allItems @ data response) (next_l (links response))) = q"
        by (simp add: funpow_swap1)
      from Suc.IH [OF this Suc.prems(2), of "requests @ [url]"] Inr url show ?thesis
        by (simp add: fetch_loop.simps [of _ allItems "Some url"] axios_get_def)
    qed
  next
    case (Fulfilled items)
    then have nu: "nextUrl = None \<or> nextUrl = Some []" and "items = allItems"
      by (auto simp: fetch_suspend_def split: option.splits if_splits)
    with Suc.prems Fulfilled have "q = Fulfilled allItems"
      by (simp add: funpow_resume_settled settled_def del: funpow.simps)
    with nu show ?thesis
      by (elim disjE)
         (simp_all add: fetch_loop.simps [of _ _ None] fetch_loop.simps [of _ _ "Some []"] settle_of_def)
  next
    case (Rejected e)
    then show ?thesis
      by (auto simp: fetch_suspend_def split: option.splits if_splits)
  qed
qed


lemma Promise_all_Inr:
  "Promise_all pa pb = Some (Inr (a, b)) \<longleftrightarrow> pa = Fulfilled a \<and> pb = Fulfilled b"
  by (auto simp: Promise_all_def split: promise.splits)

lemma Promise_all_Inl:
  "Promise_all pa pb = Some (Inl e) \<Longrightarrow> pa = Rejected e \<or> pb = Rejected e"
  by (auto simp: Promise_all_def split: promise.splits)



lemma Promise_all_settled: "settled pa \<Longrightarrow> settled pb \<Longrightarrow> Promise_all pa pb \<noteq> None"
  by (auto simp: Promise_all_def settled_def split: promise.splits)

lemma Promise_all_agree:
  assumes "Promise_all ((fetch_resume wsrv ^^ i) pw) ((fetch_resume ssrv ^^ j) ps) = Some r"
    and "Promise_all ((fetch_resume wsrv ^^ i') pw) ((fetch_resume ssrv ^^ j') ps) = Some r'"
  shows "(\<exists>e e'. r = Inl e \<and> r' = Inl e') \<or> (\<exists>a b. r = Inr (a, b) \<and> r' = Inr (a, b))"
proof -
  have clash: False
    if "Promise_all ((fetch_resume wsrv ^^ m) pw) ((fetch_resume ssrv ^^ n) ps) = Some (Inr (a, b))"
      and "Promise_all ((fetch_resume wsrv ^^ m') pw) ((fetch_resume ssrv ^^ n') ps) = Some (Inl e)"
    for m n m' n' a b e
  proof -
    from that(1) have f: "(fetch_resume wsrv ^^ m) pw = Fulfilled a" "(fetch_resume ssrv ^^ n) ps = Fulfilled b"
      by (simp_all add: Promise_all_Inr)
    from Promise_all_Inl [OF that(2)] show False
    proof
      assume "(fetch_resume wsrv ^^ m') pw = Rejected e"
      from settled_unique [OF f(1) _ this] show False by (simp add: settled_def)
    next
      assume "(fetch_resume ssrv ^^ n') ps = Rejected e"
      from settled_unique [OF f(2) _ this] show False by (simp add: settled_def)
    qed
  qed
  show ?thesis
  proof (cases r)
    case (Inl e)
    show ?thesis
    proof (cases r')
      case (Inl e')
      with \<open>r = Inl e\<close> show ?thesis by simp
    next
      case (Inr ab)
      with Inl assms clash [of i' j' "fst ab" "snd ab" i j e] show ?thesis by simp
    qed
  next
    case (Inr ab)
    obtain a b where ab: "ab = (a, b)" by (cases ab)
    show ?thesis
    proof (cases r')
      case (Inl e')
      with Inr ab assms clash [of i j a b i' j' e'] show ?thesis by simp
    next
      case r': (Inr ab')
      obtain a' b' where ab': "ab' = (a', b')" by (cases ab')
      from assms Inr ab r' ab'
      have "(fetch_resume wsrv ^^ i) pw = Fulfilled a" "(fetch_resume ssrv ^^ j) ps = Fulfilled b"
        "(fetch_resume wsrv ^^ i') pw = Fulfilled a'" "(fetch_resume ssrv ^^ j') ps = Fulfilled b'"
        by (simp_all add: Promise_all_Inr)
      then have "Fulfilled a = Fulfilled a'" "Fulfilled b = Fulfilled b'"
        using settled_unique [where server = wsrv and i = i and p = pw and j = i'
            and q = "Fulfilled a" and q' = "Fulfilled a'"]
          settled_unique [where server = ssrv and i = j and p = ps and j = j'
            and q = "Fulfilled b" and q' = "Fulfilled b'"]
        by (simp_all add: settled_def)
      with Inr ab r' ab' show ?thesis by simp
    qed
  qed
qed

lemma finish_agree:
  assumes "(\<exists>e e'. r = Inl e \<and> r' = Inl e') \<or> (\<exists>a b. r = Inr (a, b) \<and> r' = Inr (a, b))"
  shows "stdout (finish js r) = stdout (finish js r') \<and> exit_code (finish js r) = exit_code (finish js r')"
  using assms by (auto simp: finish_def report_failure_def)


lemma await_all_sound:
  "await_all js wsrv ssrv sched pw ps = Some out \<Longrightarrow>
     \<exists>r i j. out = finish js r
       \<and> Promise_all ((fetch_resume wsrv ^^ i) pw) ((fetch_resume ssrv ^^ j) ps) = Some r"
proof (induction sched arbitrary: pw ps)
  case Nil
  then obtain r where "Promise_all pw ps = Some r" "out = finish js r"
    by auto
  then have "out = finish js r
       \<and> Promise_all ((fetch_resume wsrv ^^ 0) pw) ((fetch_resume ssrv ^^ 0) ps) = Some r"
    by simp
  then show ?case by blast
next
  case (Cons b sched)
  show ?case
  proof (cases "Promise_all pw ps")
    case (Some r)
    with Cons.prems have "out = finish js r
       \<and> Promise_all ((fetch_resume wsrv ^^ 0) pw) ((fetch_resume ssrv ^^ 0) ps) = Some r"
      by simp
    then show ?thesis by blast
  next
    case None
    show ?thesis
    proof (cases b)
      case True
      with None Cons.prems have "await_all js wsrv ssrv sched (fetch_resume wsrv pw) ps = Some out"
        by simp
      from Cons.IH [OF this] obtain r i j where
        "out = finish js r"
        "Promise_all ((fetch_resume wsrv ^^ i) (fetch_resume wsrv pw)) ((fetch_resume ssrv ^^ j) ps) = Some r"
        by blast
      then have "out = finish js r
       \<and> Promise_all ((fetch_resume wsrv ^^ Suc i) pw) ((fetch_resume ssrv ^^ j) ps) = Some r"
        by (simp add: funpow_swap1)
      then show ?thesis by blast
    next
      case False
      with None Cons.prems have "await_all js wsrv ssrv sched pw (fetch_resume ssrv ps) = Some out"
        by simp
      from Cons.IH [OF this] obtain r i j where
        "out = finish js r"
        "Promise_all ((fetch_resume wsrv ^^ i) pw) ((fetch_resume ssrv ^^ j) (fetch_resume ssrv ps)) = Some r"
        by blast
      then have "out = finish js r
       \<and> Promise_all ((fetch_resume wsrv ^^ i) pw) ((fetch_resume ssrv ^^ Suc j) ps) = Some r"
        by (simp add: funpow_swap1)
      then show ?thesis by blast
    qed
  qed
qed

lemma await_all_terminates:
  "settled ((fetch_resume wsrv ^^ i) pw) \<Longrightarrow> settled ((fetch_resume ssrv ^^ j) ps) \<Longrightarrow>
   i \<le> length (filter (\<lambda>b. b) sched) \<Longrightarrow> j \<le> length (filter Not sched) \<Longrightarrow>
     await_all js wsrv ssrv sched pw ps \<noteq> None"
proof (induction sched arbitrary: pw ps i j)
  case Nil
  then show ?case by (simp add: Promise_all_settled)
next
  case (Cons b sched)
  show ?case
  proof (cases "Promise_all pw ps")
    case (Some r)
    then show ?thesis by simp
  next
    case None
    show ?thesis
    proof (cases b)
      case True
      have "settled ((fetch_resume wsrv ^^ (i - 1)) (fetch_resume wsrv pw))"
      proof (cases i)
        case 0
        with Cons.prems(1) show ?thesis by (simp add: fetch_resume_settled)
      next
        case (Suc i')
        with Cons.prems(1) show ?thesis by (simp add: funpow_swap1)
      qed
      moreover have "i - 1 \<le> length (filter (\<lambda>b. b) sched)" "j \<le> length (filter Not sched)"
        using Cons.prems(3,4) True by simp_all
      ultimately have "await_all js wsrv ssrv sched (fetch_resume wsrv pw) ps \<noteq> None"
        using Cons.prems(2) by (intro Cons.IH)
      with None True show ?thesis by simp
    next
      case False
      have "settled ((fetch_resume ssrv ^^ (j - 1)) (fetch_resume ssrv ps))"
      proof (cases j)
        case 0
        with Cons.prems(2) show ?thesis by (simp add: fetch_resume_settled)
      next
        case (Suc j')
        with Cons.prems(2) show ?thesis by (simp add: funpow_swap1)
      qed
      moreover have "i \<le> length (filter (\<lambda>b. b) sched)" "j - 1 \<le> length (filter Not sched)"
        using Cons.prems(3,4) False by simp_all
      ultimately have "await_all js wsrv ssrv sched pw (fetch_resume ssrv ps) \<noteq> None"
        using Cons.prems(1) by (intro Cons.IH)
      with None False show ?thesis by simp
    qed
  qed
qed








text \<open>
  Claim C9. The outcome is a function of the remote data set alone. Two runs against
  the same service that end, whatever the two orders of arrival of the responses, write
  the same lines to the standard output and have the same exit status. When both
  fetches return, every run that ends writes exactly the serialised top three of the
  fetched workplaces and shifts, writes nothing to the error stream and has the exit
  status 0; and the run does end once enough responses have arrived.
\<close>

theorem report_independent_of_interleaving:
  "(getTopWorkplaces JSON_stringify wserver sserver sched1 = Some out1
      \<and> getTopWorkplaces JSON_stringify wserver sserver sched2 = Some out2
     \<longrightarrow> stdout out1 = stdout out2 \<and> exit_code out1 = exit_code out2)
   \<and> (fetchAllPaginatedData wserver (API_BASE_URL @ ''/workplaces'') wrequests
          = Some (Inr allWorkplaces, wrequests')
      \<and> fetchAllPaginatedData sserver (API_BASE_URL @ ''/shifts'') srequests
          = Some (Inr allShifts, srequests')
     \<longrightarrow> (\<forall>sched out. getTopWorkplaces JSON_stringify wserver sserver sched = Some out
            \<longrightarrow> out = \<lparr>stdout = [JSON_stringify (top3Workplaces allWorkplaces allShifts)],
                        stderr = [], exit_code = 0\<rparr>)
       \<and> (\<exists>n. \<forall>sched. n \<le> length (filter (\<lambda>b. b) sched) \<and> n \<le> length (filter Not sched)
            \<longrightarrow> getTopWorkplaces JSON_stringify wserver sserver sched \<noteq> None))"
proof (intro conjI impI)
  let ?pw = "fetch_suspend [] (Some (API_BASE_URL @ ''/workplaces'')) :: Workplace promise"
  let ?ps = "fetch_suspend [] (Some (API_BASE_URL @ ''/shifts'')) :: Shift promise"
  assume runs: "getTopWorkplaces JSON_stringify wserver sserver sched1 = Some out1
      \<and> getTopWorkplaces JSON_stringify wserver sserver sched2 = Some out2"
  from runs obtain r1 i1 j1 where out1: "out1 = finish JSON_stringify r1"
    and r1: "Promise_all ((fetch_resume wserver ^^ i1) ?pw) ((fetch_resume sserver ^^ j1) ?ps) = Some r1"
    unfolding getTopWorkplaces_def by (blast dest: await_all_sound)
  from runs obtain r2 i2 j2 where out2: "out2 = finish JSON_stringify r2"
    and r2: "Promise_all ((fetch_resume wserver ^^ i2) ?pw) ((fetch_resume sserver ^^ j2) ?ps) = Some r2"
    unfolding getTopWorkplaces_def by (blast dest: await_all_sound)
  from finish_agree [OF Promise_all_agree [OF r1 r2], of JSON_stringify] out1 out2
  show "stdout out1 = stdout out2" and "exit_code out1 = exit_code out2"
    by simp_all
next
  let ?pw = "fetch_suspend [] (Some (API_BASE_URL @ ''/workplaces'')) :: Workplace promise"
  let ?ps = "fetch_suspend [] (Some (API_BASE_URL @ ''/shifts'')) :: Shift promise"
  assume fetched: "fetchAllPaginatedData wserver (API_BASE_URL @ ''/workplaces'') wrequests
          = Some (Inr allWorkplaces, wrequests')
      \<and> fetchAllPaginatedData sserver (API_BASE_URL @ ''/shifts'') srequests
          = Some (Inr allShifts, srequests')"
  from fetched obtain nw where nw: "(fetch_resume wserver ^^ nw) ?pw = Fulfilled allWorkplaces"
    unfolding fetchAllPaginatedData_def by (auto dest!: fetch_loop_resume simp: settle_of_def)
  from fetched obtain ns where ns: "(fetch_resume sserver ^^ ns) ?ps = Fulfilled allShifts"
    unfolding fetchAllPaginatedData_def by (auto dest!: fetch_loop_resume simp: settle_of_def)
  from nw ns have both:
    "Promise_all ((fetch_resume wserver ^^ nw) ?pw) ((fetch_resume sserver ^^ ns) ?ps)
       = Some (Inr (allWorkplaces, allShifts))"
    by (simp add: Promise_all_Inr)
  show "\<forall>sched out. getTopWorkplaces JSON_stringify wserver sserver sched = Some out
            \<longrightarrow> out = \<lparr>stdout = [JSON_stringify (top3Workplaces allWorkplaces allShifts)],
                        stderr = [], exit_code = 0\<rparr>"
  proof (intro allI impI)
    fix sched out
    assume "getTopWorkplaces JSON_stringify wserver sserver sched = Some out"
    then obtain r i j where out: "out = finish JSON_stringify r"
      and r: "Promise_all ((fetch_resume wserver ^^ i) ?pw) ((fetch_resume sserver ^^ j) ?ps) = Some r"
      unfolding getTopWorkplaces_def by (blast dest: await_all_sound)
    from Promise_all_agree [OF both r] have "r = Inr (allWorkplaces, allShifts)"
      by auto
    with out show "out = \<lparr>stdout = [JSON_stringify (top3Workplaces allWorkplaces allShifts)],
                        stderr = [], exit_code = 0\<rparr>"
      by (simp add: finish_def report_success_def)
  qed
  have "\<forall>sched. max nw ns \<le> length (filter (\<lambda>b. b) sched) \<and> max nw ns \<le> length (filter Not sched)
            \<longrightarrow> getTopWorkplaces JSON_stringify wserver sserver sched \<noteq> None"
  proof (intro allI impI)
    fix sched
    assume "max nw ns \<le> length (filter (\<lambda>b. b) sched) \<and> max nw ns \<le> length (filter Not sched)"
    then have "nw \<le> length (filter (\<lambda>b. b) sched)" "ns \<le> length (filter Not sched)"
      by simp_all
    moreover have "settled ((fetch_resume wserver ^^ nw) ?pw)" "settled ((fetch_resume sserver ^^ ns) ?ps)"
      using nw ns by (simp_all add: settled_def)
    ultimately show "getTopWorkplaces JSON_stringify wserver sserver sched \<noteq> None"
      unfolding getTopWorkplaces_def by (intro await_all_terminates)
  qed
  then show "\<exists>n. \<forall>sched. n \<le> length (filter (\<lambda>b. b) sched) \<and> n \<le> length (filter Not sched)
            \<longrightarrow> getTopWorkplaces JSON_stringify wserver sserver sched \<noteq> None" ..
qed

theorem report_independent_of_interleaving_witness:
  "getTopWorkplaces names_of scenario_wserver scenario_sserver [True, False, False]
     = Some \<lparr>stdout = [names_of (top3Workplaces scenario_workplaces scenario_shifts)],
             stderr = [], exit_code = 0\<rparr>
   \<and> getTopWorkplaces names_of scenario_wserver scenario_sserver [False, False, True]
     = Some \<lparr>stdout = [names_of (top3Workplaces scenario_workplaces scenario_shifts)],
             stderr = [], exit_code = 0\<rparr>
   \<and> names_of (top3Workplaces scenario_workplaces scenario_shifts) = ''W1 nameW2 name''"
proof -
  have fw: "fetchAllPaginatedData scenario_wserver (API_BASE_URL @ ''/workplaces'') []
      = Some (Inr scenario_workplaces, [API_BASE_URL @ ''/workplaces''])"
    by (simp add: fetchAllPaginatedData_def fetch_loop.simps axios_get_def scenario_wserver_def
        API_BASE_URL_def page_of_def)
  have fs: "fetchAllPaginatedData scenario_sserver (API_BASE_URL @ ''/shifts'') []
      = Some (Inr scenario_shifts, [API_BASE_URL @ ''/shifts'', ''/shifts?page=1''])"
    by (simp add: fetchAllPaginatedData_def fetch_loop.simps axios_get_def scenario_sserver_def
        API_BASE_URL_def page_of_def scenario_shifts_def)
  obtain out1 where run1:
    "getTopWorkplaces names_of scenario_wserver scenario_sserver [True, False, False] = Some out1"
    by (simp add: run_defs sample_defs)
  obtain out2 where run2:
    "getTopWorkplaces names_of scenario_wserver scenario_sserver [False, False, True] = Some out2"
    by (simp add: run_defs sample_defs)
  note inst = report_independent_of_interleaving [of names_of scenario_wserver scenario_sserver
      "[True, False, False]" out1 "[False, False, True]" out2 "[]" scenario_workplaces
      "[API_BASE_URL @ ''/workplaces'']" "[]" scenario_shifts
      "[API_BASE_URL @ ''/shifts'', ''/shifts?page=1'']"]
  from inst fw fs have every: "\<forall>sched out.
      getTopWorkplaces names_of scenario_wserver scenario_sserver sched = Some out
        \<longrightarrow> out = \<lparr>stdout = [names_of (top3Workplaces scenario_workplaces scenario_shifts)],
                    stderr = [], exit_code = 0\<rparr>"
    by blast
  from every run1 have
    "out1 = \<lparr>stdout = [names_of (top3Workplaces scenario_workplaces scenario_shifts)],
             stderr = [], exit_code = 0\<rparr>"
    by blast
  with run1 have
    "getTopWorkplaces names_of scenario_wserver scenario_sserver [True, False, False]
       = Some \<lparr>stdout = [names_of (top3Workplaces scenario_workplaces scenario_shifts)],
               stderr = [], exit_code = 0\<rparr>"
    by simp
  moreover from every run2 have
    "out2 = \<lparr>stdout = [names_of (top3Workplaces scenario_workplaces scenario_shifts)],
             stderr = [], exit_code = 0\<rparr>"
    by blast
  with run2 have
    "getTopWorkplaces names_of scenario_wserver scenario_sserver [False, False, True]
       = Some \<lparr>stdout = [names_of (top3Workplaces scenario_workplaces scenario_shifts)],
               stderr = [], exit_code = 0\<rparr>"
    by simp
  moreover have "names_of (top3Workplaces scenario_workplaces scenario_shifts) = ''W1 nameW2 name''"
    by (simp add: pipeline_defs sample_defs)
  ultimately show ?thesis
    by blast
qed

end
